theory Spec2Isabelle
  imports Complex_Main "HOL-Library.Word"
begin

section \<open>Dense storage\<close>

text \<open>
  \<^verbatim>\<open>matrix_t\<close> is an array of row pointers, each row an array of doubles; \<^verbatim>\<open>vector_t\<close>
  is an array of doubles. A matrix is modelled as the list of its rows, so that the O(1) exchange
  of two row pointers is the exchange of two list elements. The \<^verbatim>\<open>size\<close> field is set by the
  constructor to the number of rows allocated and never changes: \<open>getSize\<close> is the length.

  The element type \<open>'a\<close> stands for \<^verbatim>\<open>double\<close>. The functions below use only the syntactic
  classes of the operations the code applies (\<open>+\<close>, \<open>-\<close>, \<open>*\<close>, \<open>/\<close>, \<open>abs\<close>, \<open><\<close>, \<open>0\<close>),
  which carry no axioms: a theorem stated at that sort holds for every interpretation of the
  arithmetic, rounding included. A theorem that needs the comparison to be a linear order says so
  in the sort of its element type.
\<close>

type_synonym 'a matrix_t = "'a list list"
type_synonym 'a vector_t = "'a list"

definition getSize :: "'b list \<Rightarrow> nat" where
  "getSize M = length M"

text \<open>The shape the constructors establish: \<open>n\<close> rows of \<open>n\<close> cells each.\<close>

definition square :: "nat \<Rightarrow> 'a matrix_t \<Rightarrow> bool" where
  "square n A = (length A = n \<and> list_all (\<lambda>r. length r = n) A)"



text \<open>\<^verbatim>\<open>std::swap(V[i], V[j])\<close> on the cells of an array.\<close>

definition swap :: "'b list \<Rightarrow> nat \<Rightarrow> nat \<Rightarrow> 'b list" where
  "swap V i j = V[i := V ! j, j := V ! i]"

section \<open>initializeFromSeed\<close>

text \<open>
  The generator is \<^verbatim>\<open>std::bind(std::uniform_real_distribution<double>(-range, range),
  std::mt19937(seed))\<close>. The two library parts are parameters of the model: \<open>mt19937 seed\<close> is
  the seeded engine, and \<open>uniform_real lo hi g\<close> is one draw, which returns the number and the
  advanced engine. \<^verbatim>\<open>range\<close> is an \<^verbatim>\<open>unsigned int\<close>, so \<^verbatim>\<open>-range\<close> is the negation
  modulo \<open>2 ^ 32\<close>.
\<close>

text \<open>\<^verbatim>\<open>for (int j = 0; j < A.getSize(); ++j) A[i][j] = (double)(mt_rand());\<close>\<close>

function init_row :: "('g \<Rightarrow> 'a \<times> 'g) \<Rightarrow> nat \<Rightarrow> nat \<Rightarrow> nat \<Rightarrow> 'a matrix_t \<Rightarrow> 'g \<Rightarrow> 'a matrix_t \<times> 'g" where
  "init_row mt_rand n i j A g =
     (if j < n then
        (case mt_rand g of (v, g') \<Rightarrow> init_row mt_rand n i (Suc j) (A[i := (A ! i)[j := v]]) g')
      else (A, g))"
  by pat_completeness auto
termination
  by (relation "measure (\<lambda>(mt_rand, n, i, j, A, g). n - j)") auto

text \<open>\<^verbatim>\<open>for (int i = 0; i < A.getSize(); ++i)\<close> around the loop over \<open>j\<close>.\<close>

function init_rows :: "('g \<Rightarrow> 'a \<times> 'g) \<Rightarrow> nat \<Rightarrow> nat \<Rightarrow> 'a matrix_t \<Rightarrow> 'g \<Rightarrow> 'a matrix_t \<times> 'g" where
  "init_rows mt_rand n i A g =
     (if i < n then
        (case init_row mt_rand n i 0 A g of (A', g') \<Rightarrow> init_rows mt_rand n (Suc i) A' g')
      else (A, g))"
  by pat_completeness auto
termination
  by (relation "measure (\<lambda>(mt_rand, n, i, A, g). n - i)") auto

text \<open>\<^verbatim>\<open>for (int i = 0; i < B.getSize(); ++i) B[i] = (double)(mt_rand());\<close>\<close>

function init_vec :: "('g \<Rightarrow> 'a \<times> 'g) \<Rightarrow> nat \<Rightarrow> nat \<Rightarrow> 'a vector_t \<Rightarrow> 'g \<Rightarrow> 'a vector_t \<times> 'g" where
  "init_vec mt_rand n i B g =
     (if i < n then
        (case mt_rand g of (v, g') \<Rightarrow> init_vec mt_rand n (Suc i) (B[i := v]) g')
      else (B, g))"
  by pat_completeness auto
termination
  by (relation "measure (\<lambda>(mt_rand, n, i, B, g). n - i)") auto

definition initializeFromSeed ::
  "(int \<Rightarrow> 'g) \<Rightarrow> (32 word \<Rightarrow> 32 word \<Rightarrow> 'g \<Rightarrow> 'a \<times> 'g) \<Rightarrow>
   int \<Rightarrow> 'a matrix_t \<Rightarrow> 'a vector_t \<Rightarrow> 32 word \<Rightarrow> 'a matrix_t \<times> 'a vector_t" where
  "initializeFromSeed mt19937 uniform_real seed A B range' =
     (let mt_rand = uniform_real (- range') range';
          g0 = mt19937 seed;
          (A1, g1) = init_rows mt_rand (getSize A) 0 A g0;
          (B1, g2) = init_vec mt_rand (getSize B) 0 B g1
      in (A1, B1))"

section \<open>gauss\<close>

subsection \<open>Pivot search\<close>

text \<open>
  The search is a call of TBB's functional \<^verbatim>\<open>parallel_reduce(range, identity, func, reduction)\<close>
  on \<^verbatim>\<open>blocked_range<int>(i+1, n, 2)\<close>. The library cuts the range into chunks, calls \<open>func\<close> on
  each chunk with the value accumulated so far, and joins the values of chunks that ran under
  separate bodies with \<open>reduction\<close>. How the range is cut is the library's choice; a \<open>sched\<close>
  names one choice: \<open>Chunk\<close> runs \<open>func\<close> on the whole range, \<open>Split m stolen l r\<close> cuts at \<open>m\<close>,
  and when \<open>stolen\<close> the right part starts from the identity and is joined by \<open>reduction\<close>,
  otherwise it continues with the value of the left part. \<^verbatim>\<open>main\<close> starts the scheduler with one
  thread, so the chunks run one after the other; the state \<open>'s\<close> is what the lambdas capture by
  reference and write.
\<close>

datatype sched = Chunk | Split nat bool sched sched

fun sched_ok :: "nat \<Rightarrow> nat \<Rightarrow> sched \<Rightarrow> bool" where
  "sched_ok b e Chunk = True"
| "sched_ok b e (Split m stolen l r) = (b \<le> m \<and> m \<le> e \<and> sched_ok b m l \<and> sched_ok m e r)"

fun parallel_reduce ::
  "sched \<Rightarrow> nat \<Rightarrow> nat \<Rightarrow> nat \<Rightarrow> (nat \<Rightarrow> nat \<Rightarrow> nat \<Rightarrow> 's \<Rightarrow> nat \<times> 's) \<Rightarrow> (nat \<Rightarrow> nat \<Rightarrow> nat) \<Rightarrow>
   nat \<Rightarrow> 's \<Rightarrow> nat \<times> 's" where
  "parallel_reduce Chunk b e identity func reduction v s = func b e v s"
| "parallel_reduce (Split m stolen l r) b e identity func reduction v s =
     (case parallel_reduce l b m identity func reduction v s of (v1, s1) \<Rightarrow>
        if stolen then
          (case parallel_reduce r m e identity func reduction identity s1 of (v2, s2) \<Rightarrow>
             (reduction v1 v2, s2))
        else parallel_reduce r m e identity func reduction v1 s1)"

text \<open>
  The first lambda, on the chunk \<open>[k, e)\<close>. Its parameter \<^verbatim>\<open>int row\<close> hides the variable
  \<^verbatim>\<open>row\<close> of \<^verbatim>\<open>gauss\<close>: the assignment \<^verbatim>\<open>row = k\<close> writes the parameter, which is what the
  lambda returns. \<^verbatim>\<open>big\<close> is captured by reference and is the state. A \<^verbatim>\<open>blocked_range\<close> has
  \<open>begin \<le> end\<close>, so \<^verbatim>\<open>k != r.end()\<close> is \<open>k < e\<close>.
\<close>

function pivot_body :: "('a::{abs,ord}) matrix_t \<Rightarrow> nat \<Rightarrow> nat \<Rightarrow> nat \<Rightarrow> nat \<Rightarrow> 'a \<Rightarrow> nat \<times> 'a" where
  "pivot_body A i k e row big =
     (if k < e then
        (if abs (A ! k ! i) > big then pivot_body A i (Suc k) e k (abs (A ! k ! i))
         else pivot_body A i (Suc k) e row big)
      else (row, big))"
  by pat_completeness auto
termination
  by (relation "measure (\<lambda>(A, i, k, e, row, big). e - k)") auto

text \<open>The second lambda, which joins two values.\<close>

definition pivot_join :: "('a::{abs,ord}) matrix_t \<Rightarrow> nat \<Rightarrow> nat \<Rightarrow> nat \<Rightarrow> nat" where
  "pivot_join A i a b = (if abs (A ! a ! i) > abs (A ! b ! i) then a else b)"

text \<open>
  Lines 98 to 122: \<^verbatim>\<open>big\<close> and \<^verbatim>\<open>row\<close> are initialised, then \<^verbatim>\<open>parallel_reduce\<close> runs with the
  identity \<^verbatim>\<open>0.0\<close>; the value it returns is not assigned to anything. The result is the pair of
  \<^verbatim>\<open>big\<close> and \<^verbatim>\<open>row\<close> as \<^verbatim>\<open>gauss\<close> holds them after the call.
\<close>

definition pivot_search :: "sched \<Rightarrow> nat \<Rightarrow> ('a::{abs,ord}) matrix_t \<Rightarrow> nat \<Rightarrow> 'a \<times> nat" where
  "pivot_search sch n A i =
     (let big = abs (A ! i ! i);
          row = i;
          (returned, big') =
            parallel_reduce sch (i + 1) n 0 (\<lambda>b e v s. pivot_body A i b e v s) (pivot_join A i) 0 big
      in (big', row))"

subsection \<open>Row elimination\<close>

text \<open>
  \<^verbatim>\<open>for (int j = i; j < A.getSize(); ++j) if (i == j) A[k][j] = 0; else A[k][j] += c * A[i][j];\<close>
\<close>

function elim_cols :: "nat \<Rightarrow> nat \<Rightarrow> nat \<Rightarrow> 'a \<Rightarrow> nat \<Rightarrow> ('a::{zero,plus,times}) matrix_t \<Rightarrow> 'a matrix_t" where
  "elim_cols n i k c j A =
     (if j < n then
        elim_cols n i k c (Suc j)
          (if i = j then A[k := (A ! k)[j := 0]]
           else A[k := (A ! k)[j := A ! k ! j + c * A ! i ! j]])
      else A)"
  by pat_completeness auto
termination
  by (relation "measure (\<lambda>(n, i, k, c, j, A). n - j)") auto

text \<open>The body of the loop over \<open>k\<close>, lines 144 to 150.\<close>

definition elim_row ::
  "nat \<Rightarrow> nat \<Rightarrow> nat \<Rightarrow> ('a::{zero,plus,uminus,times,inverse}) matrix_t \<times> 'a vector_t \<Rightarrow> 'a matrix_t \<times> 'a vector_t" where
  "elim_row n i k st =
     (case st of (A, B) \<Rightarrow>
        let c = - (A ! k ! i) / A ! i ! i;
            A' = elim_cols n i k c i A;
            B' = B[k := B ! k + c * B ! i]
        in (A', B'))"

text \<open>
  \<^verbatim>\<open>parallel_for\<close> over \<^verbatim>\<open>blocked_range<int>(i+1, n, 2)\<close>: the chunks partition the rows
  \<open>i+1 .. n-1\<close>, and with one thread they run one after the other, so the body runs once for each
  \<open>k\<close> from \<open>k\<close> up to \<open>n - 1\<close>.
\<close>

function elim_rows ::
  "nat \<Rightarrow> nat \<Rightarrow> nat \<Rightarrow> ('a::{zero,plus,uminus,times,inverse}) matrix_t \<times> 'a vector_t \<Rightarrow> 'a matrix_t \<times> 'a vector_t" where
  "elim_rows n i k st = (if k < n then elim_rows n i (Suc k) (elim_row n i k st) else st)"
  by pat_completeness auto
termination
  by (relation "measure (\<lambda>(n, i, k, st). n - k)") auto

subsection \<open>The loop over the columns\<close>

text \<open>\<^verbatim>\<open>exit(-1)\<close> after the message \<^verbatim>\<open>The matrix is singular!\<close>.\<close>

datatype abort = Singular

text \<open>One iteration of the loop of line 94, for column \<open>i\<close>; \<open>sch\<close> is how the search was cut.\<close>

definition column_step ::
  "sched \<Rightarrow> nat \<Rightarrow> nat \<Rightarrow> ('a::{zero,plus,uminus,times,inverse,abs,ord}) matrix_t \<times> 'a vector_t \<Rightarrow>
   abort + 'a matrix_t \<times> 'a vector_t" where
  "column_step sch n i st =
     (case st of (A, B) \<Rightarrow>
        (case pivot_search sch n A i of (big, row) \<Rightarrow>
           if big = 0 then Inl Singular
           else Inr (elim_rows n i (i + 1) (swap A i row, swap B i row))))"

text \<open>
  \<^verbatim>\<open>for (int i = 0; i < A.getSize(); ++i)\<close>, from column \<open>i\<close> up to column \<open>m - 1\<close>. \<^verbatim>\<open>gauss\<close>
  runs it with \<open>m = n\<close>; a smaller \<open>m\<close> names the state in which column \<open>m\<close> is reached.
  \<open>schs i\<close> is how the search of column \<open>i\<close> was cut.
\<close>

function columns ::
  "(nat \<Rightarrow> sched) \<Rightarrow> nat \<Rightarrow> nat \<Rightarrow> nat \<Rightarrow> ('a::{zero,plus,uminus,times,inverse,abs,ord}) matrix_t \<times> 'a vector_t \<Rightarrow>
   abort + 'a matrix_t \<times> 'a vector_t" where
  "columns schs n i m st =
     (if i < m then
        (case column_step (schs i) n i st of
           Inl e \<Rightarrow> Inl e
         | Inr st' \<Rightarrow> columns schs n (Suc i) m st')
      else Inr st)"
  by pat_completeness auto
termination
  by (relation "measure (\<lambda>(schs, n, i, m, st). m - i)") auto

subsection \<open>Back substitution\<close>

text \<open>\<^verbatim>\<open>for (int k = i - 1; k >= 0; --k) B[k] -= A[k][i] * X[i];\<close> with \<open>k = k1 - 1\<close>.\<close>

fun back_rows :: "('a::{minus,times}) matrix_t \<Rightarrow> 'a \<Rightarrow> nat \<Rightarrow> nat \<Rightarrow> 'a vector_t \<Rightarrow> 'a vector_t" where
  "back_rows A x i 0 B = B"
| "back_rows A x i (Suc k) B = back_rows A x i k (B[k := B ! k - A ! k ! i * x])"

text \<open>
  \<^verbatim>\<open>for (int i = A.getSize() - 1; i >= 0; --i)\<close> with \<open>i = i1 - 1\<close>. The third component lists the
  indices of \<open>X\<close> in the order in which the loop writes them.
\<close>

fun back_subst ::
  "('a::{minus,times,inverse}) matrix_t \<Rightarrow> nat \<Rightarrow> 'a vector_t \<times> 'a vector_t \<times> nat list \<Rightarrow>
   'a vector_t \<times> 'a vector_t \<times> nat list" where
  "back_subst A 0 st = st"
| "back_subst A (Suc i) (B, X, ws) =
     (let X' = X[i := B ! i / A ! i ! i];
          B' = back_rows A (X' ! i) i i B
      in back_subst A i (B', X', ws @ [i]))"

subsection \<open>gauss\<close>

definition gauss ::
  "(nat \<Rightarrow> sched) \<Rightarrow> ('a::{zero,plus,minus,uminus,times,inverse,abs,ord}) matrix_t \<Rightarrow> 'a vector_t \<Rightarrow> 'a vector_t \<Rightarrow>
   abort + 'a matrix_t \<times> 'a vector_t \<times> 'a vector_t" where
  "gauss schs A B X =
     (case columns schs (getSize A) 0 (getSize A) (A, B) of
        Inl e \<Rightarrow> Inl e
      | Inr (A', B') \<Rightarrow>
          (case back_subst A' (getSize A) (B', X, []) of (B'', X', ws) \<Rightarrow> Inr (A', B'', X')))"

section \<open>check\<close>

text \<open>\<^verbatim>\<open>for (int j = 0; j < A.getSize(); j++) ans += A[i][j] * X[j];\<close>\<close>

function row_sum :: "nat \<Rightarrow> ('a::{plus,times}) matrix_t \<Rightarrow> 'a vector_t \<Rightarrow> nat \<Rightarrow> nat \<Rightarrow> 'a \<Rightarrow> 'a" where
  "row_sum n A X i j ans = (if j < n then row_sum n A X i (Suc j) (ans + A ! i ! j * X ! j) else ans)"
  by pat_completeness auto
termination
  by (relation "measure (\<lambda>(n, A, X, i, j, ans). n - j)") auto

text \<open>\<^verbatim>\<open>std::max(a, b)\<close> returns \<open>b\<close> when \<open>a < b\<close> and \<open>a\<close> otherwise.\<close>

definition std_max :: "('a::ord) \<Rightarrow> 'a \<Rightarrow> 'a" where
  "std_max a b = (if a < b then b else a)"

text \<open>Lines 174 to 176 and line 180: what row \<open>i\<close> computes before it is tested.\<close>

definition row_ans :: "('a::{zero,plus,times}) matrix_t \<Rightarrow> 'a vector_t \<Rightarrow> nat \<Rightarrow> 'a" where
  "row_ans A X i = row_sum (getSize A) A X i 0 0"


text \<open>
  What \<^verbatim>\<open>check\<close> prints: \<^verbatim>\<open>Verification succeeded\<close>, or the failing index with \<^verbatim>\<open>ans\<close> and
  \<^verbatim>\<open>B[i]\<close>.
\<close>

datatype 'a verdict = Succeeded | Failed nat 'a 'a

text \<open>The loop of line 172 from row \<open>i\<close> on; \<open>lo\<close> and \<open>hi\<close> are the two bounds of line 181.\<close>

function check_rows ::
  "'a \<Rightarrow> 'a \<Rightarrow> nat \<Rightarrow> ('a::{zero,plus,times,inverse,abs,ord}) matrix_t \<Rightarrow> 'a vector_t \<Rightarrow> 'a vector_t \<Rightarrow> nat \<Rightarrow> 'a verdict" where
  "check_rows lo hi n A B X i =
     (if i < n then
        (let ans = row_ans A X i;
             ratio = std_max (abs (ans / B ! i)) (abs (B ! i / ans))
         in if ratio < lo \<or> ratio > hi then Failed i ans (B ! i)
            else check_rows lo hi n A B X (Suc i))
      else Succeeded)"
  by pat_completeness auto
termination
  by (relation "measure (\<lambda>(lo, hi, n, A, B, X, i). n - i)") auto


section \<open>main\<close>

record config =
  seed :: int
  size' :: int
  range' :: int
  verbose :: bool
  docheck :: bool
  parallel :: bool

text \<open>The initial values of lines 213 to 219.\<close>

definition defaults :: config where
  "defaults = \<lparr>seed = 411, size' = 2048, range' = 65536, verbose = False, docheck = True, parallel = False\<rparr>"

text \<open>
  What the program writes to standard output, one constructor for each print statement: the usage
  text, the configuration line, the system, the notice of the parallel branch, the message of
  the singular matrix, the solution, the line of \<^verbatim>\<open>check\<close>, and the execution time (whose value
  is not modelled).
\<close>

datatype 'a event =
    Usage
  | Configuration int int int bool
  | System "'a matrix_t" "'a vector_t"
  | NotImplemented
  | SingularMessage
  | Result "'a vector_t"
  | Verification "'a verdict"
  | Time

text \<open>
  The loop over \<^verbatim>\<open>getopt(argc, argv, "r:n:g:hvcp")\<close>. Its input is the sequence of what
  \<^verbatim>\<open>getopt\<close> returns: the option character and, for an option with an argument,
  \<^verbatim>\<open>atoi(optarg)\<close>. Any character other than the seven options (\<^verbatim>\<open>getopt\<close> returns \<^verbatim>\<open>?\<close> for
  what it does not know) takes the \<^verbatim>\<open>default\<close> branch: the usage text and \<^verbatim>\<open>exit(-1)\<close>.
  \<open>Inl\<close> is that exit, with what was printed before it.
\<close>

fun getopt_loop :: "(char \<times> int) list \<Rightarrow> config \<times> 'a event list \<Rightarrow> 'a event list + config \<times> 'a event list" where
  "getopt_loop [] st = Inr st"
| "getopt_loop ((opt, arg) # rest) (c, out) =
     (if opt = CHR ''r'' then getopt_loop rest (c\<lparr>seed := arg\<rparr>, out)
      else if opt = CHR ''n'' then getopt_loop rest (c\<lparr>size' := arg\<rparr>, out)
      else if opt = CHR ''g'' then getopt_loop rest (c\<lparr>range' := arg\<rparr>, out)
      else if opt = CHR ''h'' then getopt_loop rest (c, out @ [Usage])
      else if opt = CHR ''v'' then getopt_loop rest (c\<lparr>verbose := \<not> verbose c\<rparr>, out)
      else if opt = CHR ''c'' then getopt_loop rest (c\<lparr>docheck := \<not> docheck c\<rparr>, out)
      else if opt = CHR ''p'' then getopt_loop rest (c\<lparr>parallel := \<not> parallel c\<rparr>, out)
      else Inl (out @ [Usage]))"



declare init_row.simps [simp del] init_rows.simps [simp del] init_vec.simps [simp del]
  pivot_body.simps [simp del] elim_cols.simps [simp del] elim_rows.simps [simp del]
  columns.simps [simp del] row_sum.simps [simp del] check_rows.simps [simp del]

section \<open>Notions of the statements\<close>

text \<open>
  The largest magnitude of column \<open>i\<close> over the rows \<open>i .. n-1\<close>, as the spec words the pivot
  search; it is compared below with what the code computes.
\<close>

definition column_max :: "nat \<Rightarrow> ('a::{abs,linorder}) matrix_t \<Rightarrow> nat \<Rightarrow> 'a" where
  "column_max n A i = Max (set (map (\<lambda>k. abs (A ! k ! i)) [i..<n]))"

text \<open>
  The stream of the generator, as the spec words the initialiser: \<open>draws mt_rand k g\<close> is \<open>k\<close>
  successive draws from the engine \<open>g\<close>, and \<open>draw_rows mt_rand n k g\<close> is \<open>k\<close> rows of \<open>n\<close>
  successive draws each; both return the engine they leave.
\<close>

fun draws :: "('g \<Rightarrow> 'a \<times> 'g) \<Rightarrow> nat \<Rightarrow> 'g \<Rightarrow> 'a list \<times> 'g" where
  "draws mt_rand 0 g = ([], g)"
| "draws mt_rand (Suc k) g =
     (case mt_rand g of (v, g') \<Rightarrow> (case draws mt_rand k g' of (vs, g'') \<Rightarrow> (v # vs, g'')))"

fun draw_rows :: "('g \<Rightarrow> 'a \<times> 'g) \<Rightarrow> nat \<Rightarrow> nat \<Rightarrow> 'g \<Rightarrow> 'a list list \<times> 'g" where
  "draw_rows mt_rand n 0 g = ([], g)"
| "draw_rows mt_rand n (Suc k) g =
     (case draws mt_rand n g of (r, g') \<Rightarrow> (case draw_rows mt_rand n k g' of (rs, g'') \<Rightarrow> (r # rs, g'')))"



text \<open>
  A model of \<^verbatim>\<open>double\<close> for the inputs at which the special values of IEEE 754 decide. The
  finite values are rationals with exact arithmetic (no rounding, and one zero); the infinities
  and NaN are as in IEEE 754: \<open>0 / 0\<close>, \<open>\<infinity> - \<infinity>\<close>, \<open>0 * \<infinity>\<close> and \<open>\<infinity> / \<infinity>\<close> are NaN, every operation
  on NaN is NaN, and every comparison with NaN is false.
\<close>

datatype double = Finite rat | PInf | NInf | NaN

fun double_plus :: "double \<Rightarrow> double \<Rightarrow> double" where
  "double_plus NaN y = NaN"
| "double_plus x NaN = NaN"
| "double_plus (Finite a) (Finite b) = Finite (a + b)"
| "double_plus PInf NInf = NaN"
| "double_plus NInf PInf = NaN"
| "double_plus PInf y = PInf"
| "double_plus x PInf = PInf"
| "double_plus NInf y = NInf"
| "double_plus x NInf = NInf"

fun double_uminus :: "double \<Rightarrow> double" where
  "double_uminus (Finite a) = Finite (- a)"
| "double_uminus PInf = NInf"
| "double_uminus NInf = PInf"
| "double_uminus NaN = NaN"

fun double_times :: "double \<Rightarrow> double \<Rightarrow> double" where
  "double_times NaN y = NaN"
| "double_times x NaN = NaN"
| "double_times (Finite a) (Finite b) = Finite (a * b)"
| "double_times PInf (Finite b) = (if b = 0 then NaN else if 0 < b then PInf else NInf)"
| "double_times NInf (Finite b) = (if b = 0 then NaN else if 0 < b then NInf else PInf)"
| "double_times (Finite a) PInf = (if a = 0 then NaN else if 0 < a then PInf else NInf)"
| "double_times (Finite a) NInf = (if a = 0 then NaN else if 0 < a then NInf else PInf)"
| "double_times PInf PInf = PInf"
| "double_times PInf NInf = NInf"
| "double_times NInf PInf = NInf"
| "double_times NInf NInf = PInf"

fun double_divide :: "double \<Rightarrow> double \<Rightarrow> double" where
  "double_divide NaN y = NaN"
| "double_divide x NaN = NaN"
| "double_divide (Finite a) (Finite b) =
     (if b = 0 then (if a = 0 then NaN else if 0 < a then PInf else NInf) else Finite (a / b))"
| "double_divide (Finite a) PInf = Finite 0"
| "double_divide (Finite a) NInf = Finite 0"
| "double_divide PInf (Finite b) = (if 0 \<le> b then PInf else NInf)"
| "double_divide NInf (Finite b) = (if 0 \<le> b then NInf else PInf)"
| "double_divide PInf PInf = NaN"
| "double_divide PInf NInf = NaN"
| "double_divide NInf PInf = NaN"
| "double_divide NInf NInf = NaN"

fun double_abs :: "double \<Rightarrow> double" where
  "double_abs (Finite a) = Finite (abs a)"
| "double_abs PInf = PInf"
| "double_abs NInf = PInf"
| "double_abs NaN = NaN"

fun double_less :: "double \<Rightarrow> double \<Rightarrow> bool" where
  "double_less NaN y = False"
| "double_less x NaN = False"
| "double_less (Finite a) (Finite b) = (a < b)"
| "double_less (Finite a) PInf = True"
| "double_less NInf (Finite b) = True"
| "double_less NInf PInf = True"
| "double_less x y = False"

instantiation double :: "{zero,plus,minus,uminus,times,inverse,abs,ord}"
begin

definition zero_double_def: "0 = Finite 0"

definition plus_double_def: "x + y = double_plus x y"

definition uminus_double_def: "- x = double_uminus x"

definition minus_double_def: "x - y = double_plus x (double_uminus y)"

definition times_double_def: "x * y = double_times x y"

definition divide_double_def: "x div y = double_divide x y"

definition inverse_double_def: "inverse x = double_divide (Finite 1) x"

definition abs_double_def: "abs x = double_abs x"

definition less_double_def: "x < y = double_less x y"

definition less_eq_double_def: "x \<le> y = (double_less x y \<or> (x = y \<and> x \<noteq> NaN))"

instance ..

end

section \<open>Shapes\<close>

lemma getSize_simp: "getSize M = length M"
  by (simp add: getSize_def)

lemma swap_same: "swap V i i = V"
  by (simp add: swap_def)

lemma elim_cols_length: "length (elim_cols n i k c j A) = length A"
  by (induction n i k c j A rule: elim_cols.induct) (subst elim_cols.simps, simp)

lemma elim_cols_other: "r \<noteq> k \<Longrightarrow> elim_cols n i k c j A ! r = A ! r"
  by (induction n i k c j A rule: elim_cols.induct) (subst elim_cols.simps, simp)

lemma elim_cols_row_length: "length (elim_cols n i k c j A ! r) = length (A ! r)"
proof (induction n i k c j A rule: elim_cols.induct)
  case (1 n i k c j A)
  show ?case
  proof (cases "j < n")
    case True
    let ?A1 = "if i = j then A[k := (A ! k)[j := 0]] else A[k := (A ! k)[j := A ! k ! j + c * A ! i ! j]]"
    have "length (?A1 ! r) = length (A ! r)"
      by (cases "k < length A"; cases "r = k") (auto simp: list_update_beyond)
    with 1 True show ?thesis
      by (subst elim_cols.simps) simp
  next
    case False
    then show ?thesis by (subst elim_cols.simps) simp
  qed
qed

lemma elim_cols_cell:
  "k \<noteq> i \<Longrightarrow> k < length A \<Longrightarrow> j' < length (A ! k) \<Longrightarrow>
   elim_cols n i k c j A ! k ! j' =
     (if j \<le> j' \<and> j' < n then (if j' = i then 0 else A ! k ! j' + c * A ! i ! j') else A ! k ! j')"
proof (induction n i k c j A rule: elim_cols.induct)
  case (1 n i k c j A)
  show ?case
  proof (cases "j < n")
    case True
    let ?A1 = "if i = j then A[k := (A ! k)[j := 0]] else A[k := (A ! k)[j := A ! k ! j + c * A ! i ! j]]"
    have len: "k < length ?A1" "j' < length (?A1 ! k)"
      using 1(3,4) by auto
    have IH: "elim_cols n i k c (Suc j) ?A1 ! k ! j' =
      (if Suc j \<le> j' \<and> j' < n then (if j' = i then 0 else ?A1 ! k ! j' + c * ?A1 ! i ! j') else ?A1 ! k ! j')"
      using 1(1)[OF True 1(2) len] .
    have rowi: "?A1 ! i = A ! i" using 1(2) by auto
    have cell: "?A1 ! k ! j' = (if j' = j then (if i = j then 0 else A ! k ! j + c * A ! i ! j) else A ! k ! j')"
      using 1(3,4) by auto
    have "elim_cols n i k c j A = elim_cols n i k c (Suc j) ?A1"
      using True by (subst elim_cols.simps) simp
    then show ?thesis
      using IH rowi cell True by (auto simp: not_less_eq_eq)
  next
    case False
    then show ?thesis by (subst elim_cols.simps) auto
  qed
qed

lemma elim_row_shape:
  "length (fst (elim_row n i k (A, B))) = length A"
  "length (fst (elim_row n i k (A, B)) ! r) = length (A ! r)"
  "length (snd (elim_row n i k (A, B))) = length B"
  by (simp_all add: elim_row_def Let_def elim_cols_length elim_cols_row_length)

lemma elim_rows_shape:
  "length (fst (elim_rows n i k st)) = length (fst st) \<and>
   length (fst (elim_rows n i k st) ! r) = length (fst st ! r) \<and>
   length (snd (elim_rows n i k st)) = length (snd st)"
proof (induction n i k st rule: elim_rows.induct)
  case (1 n i k st)
  show ?case
  proof (cases "k < n")
    case True
    obtain A B where st: "st = (A, B)" by (cases st)
    from 1[OF True] True show ?thesis
      by (subst (1 2 3) elim_rows.simps) (simp add: st elim_row_shape)
  next
    case False
    then show ?thesis by (subst (1 2 3) elim_rows.simps) simp
  qed
qed

text \<open>The sweep leaves the rows outside \<open>k .. n-1\<close> as they are.\<close>

lemma elim_rows_other_row:
  "r < k \<or> n \<le> r \<Longrightarrow> fst (elim_rows n i k st) ! r = fst st ! r"
proof (induction n i k st rule: elim_rows.induct)
  case (1 n i k st)
  show ?case
  proof (cases "k < n")
    case True
    obtain A B where st: "st = (A, B)" by (cases st)
    have "r \<noteq> k" using 1(2) True by auto
    then have "fst (elim_row n i k st) ! r = fst st ! r"
      by (simp add: st elim_row_def Let_def elim_cols_other)
    moreover have "fst (elim_rows n i (Suc k) (elim_row n i k st)) ! r = fst (elim_row n i k st) ! r"
      using 1(1)[OF True] 1(2) by auto
    ultimately show ?thesis
      using True by (subst elim_rows.simps) simp
  next
    case False
    then show ?thesis by (subst elim_rows.simps) simp
  qed
qed

lemma elim_rows_other_cell:
  "r < k \<or> n \<le> r \<Longrightarrow> snd (elim_rows n i k st) ! r = snd st ! r"
proof (induction n i k st rule: elim_rows.induct)
  case (1 n i k st)
  show ?case
  proof (cases "k < n")
    case True
    obtain A B where st: "st = (A, B)" by (cases st)
    have "r \<noteq> k" using 1(2) True by auto
    then have "snd (elim_row n i k st) ! r = snd st ! r"
      by (simp add: st elim_row_def Let_def)
    moreover have "snd (elim_rows n i (Suc k) (elim_row n i k st)) ! r = snd (elim_row n i k st) ! r"
      using 1(1)[OF True] 1(2) by auto
    ultimately show ?thesis
      using True by (subst elim_rows.simps) simp
  next
    case False
    then show ?thesis by (subst elim_rows.simps) simp
  qed
qed

text \<open>What the sweep leaves in a row \<open>r\<close> of \<open>k .. n-1\<close>, in terms of the state it starts from.\<close>

lemma elim_rows_row:
  "i < k \<Longrightarrow> k \<le> r \<Longrightarrow> r < n \<Longrightarrow> r < length (fst st) \<Longrightarrow> j < length (fst st ! r) \<Longrightarrow>
   fst (elim_rows n i k st) ! r ! j =
     (if i \<le> j \<and> j < n then
        (if j = i then 0 else fst st ! r ! j + (- (fst st ! r ! i) / fst st ! i ! i) * fst st ! i ! j)
      else fst st ! r ! j)"
proof (induction n i k st rule: elim_rows.induct)
  case (1 n i k st)
  have kn: "k < n" using 1 by simp
  let ?st1 = "elim_row n i k st"
  have unfold: "elim_rows n i k st = elim_rows n i (Suc k) ?st1"
    using kn by (subst elim_rows.simps) simp
  show ?case
  proof (cases "r = k")
    case True
    have "fst (elim_rows n i (Suc k) ?st1) ! r = fst ?st1 ! r"
      using True by (simp add: elim_rows_other_row)
    moreover have "fst ?st1 ! r ! j = (if i \<le> j \<and> j < n then
        (if j = i then 0 else fst st ! r ! j + (- (fst st ! r ! i) / fst st ! i ! i) * fst st ! i ! j)
      else fst st ! r ! j)"
      using 1(2,5,6) True by (simp add: elim_row_def Let_def elim_cols_cell case_prod_beta)
    ultimately show ?thesis unfolding unfold by simp
  next
    case False
    then have kr: "Suc k \<le> r" using 1(3) by simp
    have rowr: "fst ?st1 ! r = fst st ! r"
      using False by (simp add: elim_row_def Let_def elim_cols_other case_prod_beta)
    have rowi: "fst ?st1 ! i = fst st ! i"
      using 1(2) by (simp add: elim_row_def Let_def elim_cols_other case_prod_beta)
    have len: "r < length (fst ?st1)" "j < length (fst ?st1 ! r)"
      using 1(5,6) by (simp_all add: elim_row_def Let_def elim_cols_length elim_cols_row_length case_prod_beta)
    have "i < Suc k" using 1(2) by simp
    from 1(1)[OF kn this kr 1(4) len] show ?thesis
      unfolding unfold by (simp add: rowr rowi)
  qed
qed

lemma elim_rows_cell:
  "i < k \<Longrightarrow> k \<le> r \<Longrightarrow> r < n \<Longrightarrow> r < length (snd st) \<Longrightarrow>
   snd (elim_rows n i k st) ! r = snd st ! r + (- (fst st ! r ! i) / fst st ! i ! i) * snd st ! i"
proof (induction n i k st rule: elim_rows.induct)
  case (1 n i k st)
  have kn: "k < n" using 1 by simp
  let ?st1 = "elim_row n i k st"
  have unfold: "elim_rows n i k st = elim_rows n i (Suc k) ?st1"
    using kn by (subst elim_rows.simps) simp
  show ?case
  proof (cases "r = k")
    case True
    have "snd (elim_rows n i (Suc k) ?st1) ! r = snd ?st1 ! r"
      using True by (simp add: elim_rows_other_cell)
    moreover have "snd ?st1 ! r = snd st ! r + (- (fst st ! r ! i) / fst st ! i ! i) * snd st ! i"
      using 1(5) True by (simp add: elim_row_def Let_def case_prod_beta)
    ultimately show ?thesis unfolding unfold by simp
  next
    case False
    then have kr: "Suc k \<le> r" using 1(3) by simp
    have rowr: "fst ?st1 ! r = fst st ! r"
      using False by (simp add: elim_row_def Let_def elim_cols_other case_prod_beta)
    have rowi: "fst ?st1 ! i = fst st ! i"
      using 1(2) by (simp add: elim_row_def Let_def elim_cols_other case_prod_beta)
    have cells: "snd ?st1 ! r = snd st ! r" "snd ?st1 ! i = snd st ! i"
      using False 1(2) by (simp_all add: elim_row_def Let_def case_prod_beta)
    have len: "r < length (snd ?st1)"
      using 1(5) by (simp add: elim_row_def Let_def case_prod_beta)
    have "i < Suc k" using 1(2) by simp
    from 1(1)[OF kn this kr 1(4) len] show ?thesis
      unfolding unfold by (simp add: rowr rowi cells)
  qed
qed

section \<open>The pivot search and the row swap\<close>

lemma pivot_search_row: "snd (pivot_search sch n A i) = i"
  by (simp add: pivot_search_def Let_def split: prod.splits)

text \<open>
  Claim C1: for every column \<open>i\<close> the pivot search selects the row of \<open>i .. n-1\<close> with the largest
  \<open>|A[r][i]|\<close>, and that row is swapped into position \<open>i\<close> of \<open>A\<close> and \<open>B\<close> before elimination.
  The code does not do this. In \<open>A = [[1, 2], [3, 4]]\<close>, \<open>B = [5, 6]\<close> the largest magnitude of column
  \<open>0\<close> is in row \<open>1\<close>; the search finds the magnitude \<open>3\<close> but leaves \<open>row = 0\<close>, however the range
  is cut, so nothing is exchanged: elimination uses the pivot \<open>1\<close>, and row \<open>[1, 2]\<close> with \<open>B[0] = 5\<close>
  stays on the diagonal.
\<close>

theorem pivot_row_not_swapped:
  "abs ([[1, 2], [3, 4 :: real]] ! 0 ! 0) < abs ([[1, 2], [3, 4 :: real]] ! 1 ! 0) \<and>
   fst (pivot_search Chunk 2 [[1, 2], [3, 4 :: real]] 0) = 3 \<and>
   snd (pivot_search sch 2 [[1, 2], [3, 4 :: real]] 0) = 0 \<and>
   column_step Chunk 2 0 ([[1, 2], [3, 4 :: real]], [5, 6]) = Inr ([[1, 2], [0, - 2]], [5, - 9])"
proof -
  have "snd (pivot_search sch 2 [[1, 2], [3, 4 :: real]] 0) = 0"
    by (rule pivot_search_row)
  moreover have "pivot_search Chunk 2 [[1, 2], [3, 4 :: real]] 0 = (3, 0)"
    by (simp add: pivot_search_def pivot_body.simps)
  moreover have "column_step Chunk 2 0 ([[1, 2], [3, 4 :: real]], [5, 6]) = Inr ([[1, 2], [0, - 2]], [5, - 9])"
    by (simp add: column_step_def pivot_search_def pivot_body.simps swap_def elim_rows.simps
        elim_row_def elim_cols.simps Let_def)
  ultimately show ?thesis by simp
qed

text \<open>
  Claim C9, as the code has it: when the two candidates \<open>a\<close> and \<open>b\<close> of the combine step have equal
  magnitudes \<open>|A[a][i]|\<close> and \<open>|A[b][i]|\<close>, the step returns its second argument \<open>b\<close>; it returns
  \<open>a\<close> only when \<open>|A[a][i]|\<close> is strictly greater (or \<open>a\<close> and \<open>b\<close> are the same row). The comparison
  is only asked to be irreflexive.
\<close>

theorem pivot_join_tie:
  fixes A :: "('a::{abs,preorder}) matrix_t"
  shows "(abs (A ! a ! i) = abs (A ! b ! i) \<longrightarrow> pivot_join A i a b = b) \<and>
         (pivot_join A i a b = a \<longrightarrow> a = b \<or> abs (A ! b ! i) < abs (A ! a ! i))"
  by (auto simp: pivot_join_def)

theorem pivot_join_tie_witness:
  "pivot_join [[1, 0], [- 1, 0 :: real]] 0 0 1 = 1 \<and> pivot_join [[1, 0], [- 1, 0 :: real]] 0 1 0 = 0"
  using pivot_join_tie [of "[[1, 0], [- 1, 0 :: real]]" 0 0 1]
    pivot_join_tie [of "[[1, 0], [- 1, 0 :: real]]" 1 0 0]
  by simp

text \<open>
  Claim C9, as the spec states it, fails: rows \<open>0\<close> and \<open>1\<close> of column \<open>0\<close> have the same magnitude,
  and the step called with the earlier candidate \<open>0\<close> first gives the later row \<open>1\<close>.
\<close>

theorem pivot_join_tie_counterexample:
  "abs ([[1, 0], [- 1, 0 :: real]] ! 0 ! 0) = abs ([[1, 0], [- 1, 0 :: real]] ! 1 ! 0) \<and>
   pivot_join [[1, 0], [- 1, 0 :: real]] 0 0 1 \<noteq> 0"
  by (simp add: pivot_join_def)

section \<open>Row elimination\<close>

text \<open>
  Claim C6: during elimination of column \<open>i\<close>, for every row \<open>k\<close> from \<open>i+1\<close> to \<open>n-1\<close> the program
  computes \<open>c = -A[k][i] / A[i][i]\<close>, sets \<open>A[k][i]\<close> to \<open>0\<close>, adds \<open>c * A[i][j]\<close> to \<open>A[k][j]\<close> for
  every column \<open>j\<close> from \<open>i+1\<close> to \<open>n-1\<close>, and adds \<open>c * B[i]\<close> to \<open>B[k]\<close>. \<open>A\<close> and \<open>B\<close> are the
  arrays as the sweep of line 142 finds them. The arithmetic is arbitrary.
\<close>

theorem elimination_sweep:
  fixes A :: "('a::{zero,plus,uminus,times,inverse}) matrix_t"
  assumes "square n A" and "length B = n" and "i < k" and "k < n"
  shows "fst (elim_rows n i (Suc i) (A, B)) ! k ! i = 0 \<and>
         (\<forall>j. i < j \<and> j < n \<longrightarrow>
            fst (elim_rows n i (Suc i) (A, B)) ! k ! j = A ! k ! j + (- (A ! k ! i) / A ! i ! i) * A ! i ! j) \<and>
         snd (elim_rows n i (Suc i) (A, B)) ! k = B ! k + (- (A ! k ! i) / A ! i ! i) * B ! i"
proof -
  from assms have len: "k < length A" "length (A ! k) = n"
    by (auto simp: square_def list_all_length)
  have row: "j < n \<Longrightarrow> fst (elim_rows n i (Suc i) (A, B)) ! k ! j =
     (if i \<le> j \<and> j < n then (if j = i then 0 else A ! k ! j + (- (A ! k ! i) / A ! i ! i) * A ! i ! j)
      else A ! k ! j)" for j
    using elim_rows_row[of i "Suc i" k n "(A, B)" j] assms(3,4) len by simp
  have "i < n" using assms(3,4) by simp
  then have "fst (elim_rows n i (Suc i) (A, B)) ! k ! i = 0"
    using row[of i] by simp
  moreover have "\<forall>j. i < j \<and> j < n \<longrightarrow>
      fst (elim_rows n i (Suc i) (A, B)) ! k ! j = A ! k ! j + (- (A ! k ! i) / A ! i ! i) * A ! i ! j"
    using row by auto
  moreover have "snd (elim_rows n i (Suc i) (A, B)) ! k = B ! k + (- (A ! k ! i) / A ! i ! i) * B ! i"
    using elim_rows_cell[of i "Suc i" k n "(A, B)"] assms by simp
  ultimately show ?thesis by blast
qed

theorem elimination_sweep_witness:
  "fst (elim_rows 2 0 (Suc 0) ([[1, 2], [3, 4 :: real]], [5, 6])) ! 1 ! 0 = 0 \<and>
   fst (elim_rows 2 0 (Suc 0) ([[1, 2], [3, 4 :: real]], [5, 6])) ! 1 ! 1 = - 2 \<and>
   snd (elim_rows 2 0 (Suc 0) ([[1, 2], [3, 4 :: real]], [5, 6])) ! 1 = - 9"
  using elimination_sweep [of 2 "[[1, 2], [3, 4 :: real]]" "[5, 6]" 0 1]
  by (simp add: square_def)

section \<open>The command line\<close>

lemma getopt_loop_toggles:
  "getopt_loop argv (c, out) = Inr (c', out') \<Longrightarrow>
   verbose c' = (verbose c \<noteq> odd (count_list (map fst argv) CHR ''v'')) \<and>
   docheck c' = (docheck c \<noteq> odd (count_list (map fst argv) CHR ''c'')) \<and>
   parallel c' = (parallel c \<noteq> odd (count_list (map fst argv) CHR ''p''))"
proof (induction argv arbitrary: c out)
  case Nil
  then show ?case by simp
next
  case (Cons a argv)
  obtain opt arg where a: "a = (opt, arg)" by (cases a)
  show ?case
    using Cons.prems Cons.IH
    by (auto simp: a split: if_splits)
qed

text \<open>
  Claim C10: each occurrence of \<open>-v\<close>, \<open>-c\<close> or \<open>-p\<close> negates its boolean. When the loop over the
  options ends without the exit of the \<^verbatim>\<open>default\<close> branch, a flag given an even number of times
  has its default (\<open>verbose = false\<close>, \<open>docheck = true\<close>, \<open>parallel = false\<close>) and a flag given an
  odd number of times has the opposite; and two occurrences of the same flag, wherever the loop
  stands, cancel.
\<close>

theorem flags_toggle:
  assumes "getopt_loop argv (defaults, out) = Inr (c, out')"
  shows "verbose c = odd (count_list (map fst argv) CHR ''v'') \<and>
         docheck c = even (count_list (map fst argv) CHR ''c'') \<and>
         parallel c = odd (count_list (map fst argv) CHR ''p'') \<and>
         (\<forall>f a b rest c0 out0. f = CHR ''v'' \<or> f = CHR ''c'' \<or> f = CHR ''p'' \<longrightarrow>
            getopt_loop ((f, a) # (f, b) # rest) (c0, out0 :: 'a event list) = getopt_loop rest (c0, out0))"
proof -
  have "getopt_loop ((f, a) # (f, b) # rest) (c0, out0 :: 'a event list) = getopt_loop rest (c0, out0)"
    if "f = CHR ''v'' \<or> f = CHR ''c'' \<or> f = CHR ''p''" for f a b rest c0 out0
    using that by auto
  then show ?thesis
    using getopt_loop_toggles[OF assms] by (simp add: defaults_def)
qed

theorem flags_toggle_witness:
  "verbose (fst (projr (getopt_loop [(CHR ''v'', 0), (CHR ''p'', 0), (CHR ''v'', 0), (CHR ''c'', 0)]
      (defaults, [] :: real event list)))) = False \<and>
   docheck (fst (projr (getopt_loop [(CHR ''v'', 0), (CHR ''p'', 0), (CHR ''v'', 0), (CHR ''c'', 0)]
      (defaults, [] :: real event list)))) = False \<and>
   parallel (fst (projr (getopt_loop [(CHR ''v'', 0), (CHR ''p'', 0), (CHR ''v'', 0), (CHR ''c'', 0)]
      (defaults, [] :: real event list)))) = True"
proof -
  have run: "getopt_loop [(CHR ''v'', 0), (CHR ''p'', 0), (CHR ''v'', 0), (CHR ''c'', 0)]
      (defaults, [] :: real event list) =
    Inr (defaults\<lparr>docheck := False, parallel := True\<rparr>, [])"
    by (simp add: defaults_def)
  show ?thesis
    using flags_toggle [OF run] by (simp add: run defaults_def)
qed

section \<open>Triangularisation\<close>

lemma elim_rows_square:
  "square n (fst st) \<Longrightarrow> square n (fst (elim_rows n i k st))"
  by (simp add: square_def list_all_length elim_rows_shape)

lemma column_step_eliminated:
  fixes A :: "('a::{zero,plus,uminus,times,inverse,abs,ord}) matrix_t"
  assumes sq: "square n A" and i: "i < n"
    and step: "column_step sch n i (A, B) = Inr (A', B')"
    and inv: "\<forall>c<i. \<forall>k. c < k \<and> k < n \<longrightarrow> A ! k ! c = 0"
  shows "square n A' \<and> length B' = length B \<and> (\<forall>c<Suc i. \<forall>k. c < k \<and> k < n \<longrightarrow> A' ! k ! c = 0)"
proof -
  have row: "snd (pivot_search sch n A i) = i" by (rule pivot_search_row)
  from step have res: "(A', B') = elim_rows n i (Suc i) (A, B)"
    using row by (auto simp: column_step_def swap_same split: prod.splits if_splits)
  have A': "A' = fst (elim_rows n i (Suc i) (A, B))" and B': "B' = snd (elim_rows n i (Suc i) (A, B))"
    using res by (metis fst_conv, metis snd_conv)
  have sq': "square n A'" using sq by (simp add: A' elim_rows_square)
  have lenB: "length B' = length B" by (simp add: B' elim_rows_shape)
  have len: "k < n \<Longrightarrow> k < length A \<and> length (A ! k) = n" for k
    using sq by (auto simp: square_def list_all_length)
  have "A' ! k ! c = 0" if c: "c < Suc i" and k: "c < k" "k < n" for c k
  proof (cases "k \<le> i")
    case True
    then have "A' ! k = A ! k" by (simp add: A' elim_rows_other_row)
    moreover have "c < i" using True k by simp
    ultimately show ?thesis using inv k by simp
  next
    case False
    then have ik: "Suc i \<le> k" by simp
    have cn: "c < n" using k by simp
    have "A' ! k ! c = (if i \<le> c \<and> c < n then
        (if c = i then 0 else A ! k ! c + (- (A ! k ! i) / A ! i ! i) * A ! i ! c) else A ! k ! c)"
      using elim_rows_row[of i "Suc i" k n "(A, B)" c] ik k len[of k] cn by (simp add: A')
    then show ?thesis using c inv k by (cases "c = i") auto
  qed
  then show ?thesis using sq' lenB by blast
qed

lemma columns_eliminated:
  fixes st :: "('a::{zero,plus,uminus,times,inverse,abs,ord}) matrix_t \<times> 'a vector_t"
  shows "columns schs n i m st = Inr st' \<Longrightarrow> square n (fst st) \<Longrightarrow> m \<le> n \<Longrightarrow>
   (\<forall>c<i. \<forall>k. c < k \<and> k < n \<longrightarrow> fst st ! k ! c = 0) \<Longrightarrow>
   square n (fst st') \<and> length (snd st') = length (snd st) \<and>
   (\<forall>c<max i m. \<forall>k. c < k \<and> k < n \<longrightarrow> fst st' ! k ! c = 0)"
proof (induction schs n i m st rule: columns.induct)
  case (1 schs n i m st)
  show ?case
  proof (cases "i < m")
    case True
    obtain A B where st: "st = (A, B)" by (cases st)
    from 1(2) True obtain st1 where s1: "column_step (schs i) n i st = Inr st1"
      and rest: "columns schs n (Suc i) m st1 = Inr st'"
      by (subst (asm) columns.simps) (auto split: sum.splits)
    obtain A1 B1 where st1: "st1 = (A1, B1)" by (cases st1)
    have "i < n" using True 1(4) by simp
    from column_step_eliminated[OF _ this s1[unfolded st st1]] 1(3,5)
    have inv1: "square n A1" "length B1 = length B" "\<forall>c<Suc i. \<forall>k. c < k \<and> k < n \<longrightarrow> A1 ! k ! c = 0"
      by (simp_all add: st)
    from 1(1)[OF True s1 rest] inv1 1(4)
    have "square n (fst st') \<and> length (snd st') = length (snd st1) \<and>
       (\<forall>c<max (Suc i) m. \<forall>k. c < k \<and> k < n \<longrightarrow> fst st' ! k ! c = 0)"
      by (simp add: st1)
    moreover have "max (Suc i) m = max i m" using True by simp
    ultimately show ?thesis using inv1 by (simp add: st st1)
  next
    case False
    with 1(2) have "st' = st" by (subst (asm) columns.simps) simp
    moreover have "max i m = i" using False by simp
    ultimately show ?thesis using 1(3,5) by simp
  qed
qed

text \<open>The textbook system of the spec, run through the whole of \<^verbatim>\<open>gauss\<close>.\<close>

lemma gauss_textbook:
  "gauss (\<lambda>i. Chunk) [[2, 1, - 1], [- 3, - 1, 2], [- 2, 1, 2 :: real]] [8, - 11, - 3] [0, 0, 0] =
     Inr ([[2, 1, - 1], [0, 1 / 2, 1 / 2], [0, 0, - 1]], [4, 3/2, 1], [2, 3, - 1])"
  by (simp add: gauss_def getSize_def columns.simps column_step_def pivot_search_def pivot_body.simps
      swap_def elim_rows.simps elim_row_def elim_cols.simps Let_def)

text \<open>
  Claim C5: if \<^verbatim>\<open>gauss\<close> completes without the abort on singularity, \<open>A\<close> is upper triangular:
  \<open>A[k][i] = 0\<close> for all \<open>k > i\<close>; and throughout the elimination this holds for every column
  already eliminated: when the loop has done the columns below \<open>m\<close>, \<open>A[k][i] = 0\<close> for all
  \<open>i < m\<close> and \<open>k > i\<close>. The arithmetic is arbitrary.
\<close>

theorem upper_triangular:
  fixes A :: "('a::{zero,plus,minus,uminus,times,inverse,abs,ord}) matrix_t"
  assumes "square (getSize A) A"
  shows "(gauss schs A B X = Inr (A', B', X') \<longrightarrow>
            (\<forall>i k. i < k \<and> k < getSize A \<longrightarrow> A' ! k ! i = 0)) \<and>
         (m \<le> getSize A \<and> columns schs (getSize A) 0 m (A, B) = Inr (Am, Bm) \<longrightarrow>
            (\<forall>i<m. \<forall>k. i < k \<and> k < getSize A \<longrightarrow> Am ! k ! i = 0))"
proof -
  have part: "\<forall>i<m. \<forall>k. i < k \<and> k < getSize A \<longrightarrow> Am ! k ! i = 0"
    if "m \<le> getSize A" "columns schs (getSize A) 0 m (A, B) = Inr (Am, Bm)" for m Am Bm
    using columns_eliminated[OF that(2)] assms that(1) by simp
  have "\<forall>i k. i < k \<and> k < getSize A \<longrightarrow> A' ! k ! i = 0" if g: "gauss schs A B X = Inr (A', B', X')"
  proof -
    from g obtain B1 where "columns schs (getSize A) 0 (getSize A) (A, B) = Inr (A', B1)"
      by (auto simp: gauss_def split: sum.splits prod.splits)
    from part[OF _ this] show ?thesis by auto
  qed
  with part show ?thesis by blast
qed

theorem upper_triangular_witness:
  "gauss (\<lambda>i. Chunk) [[2, 1, - 1], [- 3, - 1, 2], [- 2, 1, 2 :: real]] [8, - 11, - 3] [0, 0, 0] =
     Inr ([[2, 1, - 1], [0, 1 / 2, 1 / 2], [0, 0, - 1]], [4, 3 / 2, 1], [2, 3, - 1]) \<and>
   [[2, 1, - 1], [0, 1 / 2, 1 / 2], [0, 0, - 1 :: real]] ! 1 ! 0 = 0 \<and>
   [[2, 1, - 1], [0, 1 / 2, 1 / 2], [0, 0, - 1 :: real]] ! 2 ! 0 = 0 \<and>
   [[2, 1, - 1], [0, 1 / 2, 1 / 2], [0, 0, - 1 :: real]] ! 2 ! 1 = 0"
proof -
  have n: "getSize [[2, 1, - 1], [- 3, - 1, 2], [- 2, 1, 2 :: real]] = 3"
    by (simp add: getSize_def)
  have sq: "square (getSize [[2, 1, - 1], [- 3, - 1, 2], [- 2, 1, 2 :: real]])
      [[2, 1, - 1], [- 3, - 1, 2], [- 2, 1, 2 :: real]]"
    by (simp add: square_def getSize_def)
  note inst = upper_triangular [OF sq, of "\<lambda>i. Chunk" "[8, - 11, - 3]" "[0, 0, 0]"
      "[[2, 1, - 1], [0, 1 / 2, 1 / 2], [0, 0, - 1]]" "[4, 3 / 2, 1]" "[2, 3, - 1]", unfolded n]
  from inst gauss_textbook
  have tri: "\<forall>i k. i < k \<and> k < (3::nat) \<longrightarrow> [[2, 1, - 1], [0, 1 / 2, 1 / 2], [0, 0, - 1 :: real]] ! k ! i = 0"
    by blast
  have "(0::nat) < 1 \<and> (1::nat) < 3" "(0::nat) < 2 \<and> (2::nat) < 3" "(1::nat) < 2 \<and> (2::nat) < 3"
    by simp_all
  with tri have "[[2, 1, - 1], [0, 1 / 2, 1 / 2], [0, 0, - 1 :: real]] ! 1 ! 0 = 0"
    "[[2, 1, - 1], [0, 1 / 2, 1 / 2], [0, 0, - 1 :: real]] ! 2 ! 0 = 0"
    "[[2, 1, - 1], [0, 1 / 2, 1 / 2], [0, 0, - 1 :: real]] ! 2 ! 1 = 0"
    by blast+
  with gauss_textbook show ?thesis by blast
qed

section \<open>Singularity\<close>

lemma pivot_body_big:
  fixes A :: "('a::{abs,linorder}) matrix_t"
  shows "snd (pivot_body A i k e row big) = fold (\<lambda>k b. max b (abs (A ! k ! i))) [k..<e] big"
proof (induction A i k e row big rule: pivot_body.induct)
  case (1 A i k e row big)
  show ?case
  proof (cases "k < e")
    case True
    then have upt: "[k..<e] = k # [Suc k..<e]" by (simp add: upt_conv_Cons)
    show ?thesis
    proof (cases "abs (A ! k ! i) > big")
      case gt: True
      then have "max big (abs (A ! k ! i)) = abs (A ! k ! i)" by (auto simp: max_def)
      with 1(1)[OF True gt] True gt show ?thesis
        by (subst pivot_body.simps) (simp add: upt)
    next
      case ngt: False
      then have "max big (abs (A ! k ! i)) = big" by (auto simp: max_def)
      with 1(2)[OF True ngt] True ngt show ?thesis
        by (subst pivot_body.simps) (simp add: upt)
    qed
  next
    case False
    then show ?thesis by (subst pivot_body.simps) simp
  qed
qed

lemma parallel_reduce_big:
  fixes A :: "('a::{abs,linorder}) matrix_t"
  shows "sched_ok b e sch \<Longrightarrow>
    snd (parallel_reduce sch b e z (\<lambda>b e v s. pivot_body A i b e v s) (pivot_join A i) v big) =
      fold (\<lambda>k b. max b (abs (A ! k ! i))) [b..<e] big"
proof (induction sch arbitrary: b e v big)
  case Chunk
  show ?case by (simp add: pivot_body_big)
next
  case (Split m stolen l r)
  then have ok: "b \<le> m" "m \<le> e" "sched_ok b m l" "sched_ok m e r" by simp_all
  have upt: "[b..<e] = [b..<m] @ [m..<e]"
    using ok(1,2) upt_add_eq_append[of b m "e - m"] by simp
  show ?case
    using Split.IH(1)[OF ok(3)] Split.IH(2)[OF ok(4)]
    by (simp add: upt split: prod.splits) (metis snd_conv)
qed

lemma fold_max_Max:
  fixes big :: "'a::linorder"
  shows "fold (\<lambda>k b. max b (f k)) ks big = Max (set (big # map f ks))"
proof -
  have "fold (\<lambda>k b. max b (f k)) ks big = fold max (map f ks) big"
  proof -
    have "(\<lambda>k b. max b (f k)) = (\<lambda>k. max (f k))" by (auto simp: fun_eq_iff max.commute)
    then show ?thesis by (simp add: fold_map comp_def)
  qed
  also have "\<dots> = Max (set (big # map f ks))" by (rule Max.set_eq_fold[symmetric])
  finally show ?thesis .
qed

lemma pivot_search_big:
  fixes A :: "('a::{abs,linorder}) matrix_t"
  assumes "i < n" and "sched_ok (Suc i) n sch"
  shows "fst (pivot_search sch n A i) = column_max n A i"
proof -
  have "[i..<n] = i # [Suc i..<n]" using assms(1) by (simp add: upt_conv_Cons)
  then have "column_max n A i = Max (set (abs (A ! i ! i) # map (\<lambda>k. abs (A ! k ! i)) [Suc i..<n]))"
    by (simp add: column_max_def)
  moreover have "fst (pivot_search sch n A i) =
      snd (parallel_reduce sch (Suc i) n 0 (\<lambda>b e v s. pivot_body A i b e v s) (pivot_join A i) 0 (abs (A ! i ! i)))"
    by (simp add: pivot_search_def Let_def split: prod.splits)
  ultimately show ?thesis
    using parallel_reduce_big[OF assms(2)] by (simp add: fold_max_Max)
qed

lemma column_step_singular:
  fixes A :: "('a::{zero,plus,uminus,times,inverse,abs,linorder}) matrix_t"
  assumes "i < n" and "sched_ok (Suc i) n sch"
  shows "(column_step sch n i (A, B) = Inl Singular) = (column_max n A i = 0)"
  using pivot_search_big[OF assms, of A]
  by (auto simp: column_step_def split: prod.splits)



lemma columns_done: "m \<le> i \<Longrightarrow> columns schs n i m st = Inr st"
  by (subst columns.simps) simp

lemma columns_snoc:
  "i \<le> m \<Longrightarrow> columns schs n i (Suc m) st =
     (case columns schs n i m st of Inl e \<Rightarrow> Inl e | Inr st' \<Rightarrow> column_step (schs m) n m st')"
proof (induction schs n i m st rule: columns.induct)
  case (1 schs n i m st)
  show ?case
  proof (cases "i < m")
    case True
    then have "i < Suc m" by simp
    then have l: "columns schs n i (Suc m) st =
        (case column_step (schs i) n i st of Inl e \<Rightarrow> Inl e | Inr st' \<Rightarrow> columns schs n (Suc i) (Suc m) st')"
      by (subst columns.simps) simp
    have r: "columns schs n i m st =
        (case column_step (schs i) n i st of Inl e \<Rightarrow> Inl e | Inr st' \<Rightarrow> columns schs n (Suc i) m st')"
      using True by (subst columns.simps) simp
    show ?thesis
    proof (cases "column_step (schs i) n i st")
      case (Inl e)
      then show ?thesis by (simp add: l r)
    next
      case (Inr st1)
      have "Suc i \<le> m" using True by simp
      from 1(1)[OF True Inr this] Inr show ?thesis by (simp add: l r)
    qed
  next
    case False
    with 1(2) have im: "i = m" by simp
    have "columns schs n m (Suc m) st =
        (case column_step (schs m) n m st of Inl e \<Rightarrow> Inl e | Inr st' \<Rightarrow> columns schs n (Suc m) (Suc m) st')"
      by (subst columns.simps) simp
    then show ?thesis
      by (simp add: im columns_done split: sum.splits)
  qed
qed

lemma columns_abort:
  "(columns schs n 0 m st = Inl Singular) =
   (\<exists>i<m. \<exists>st'. columns schs n 0 i st = Inr st' \<and> column_step (schs i) n i st' = Inl Singular)"
proof (induction m)
  case 0
  show ?case by (simp add: columns_done)
next
  case (Suc m)
  show ?case
  proof (cases "columns schs n 0 m st")
    case (Inl e)
    then have a: "columns schs n 0 m st = Inl Singular" by (cases e) simp
    then have l: "columns schs n 0 (Suc m) st = Inl Singular" by (simp add: columns_snoc)
    from a Suc obtain i st' where "i < m" "columns schs n 0 i st = Inr st'"
      "column_step (schs i) n i st' = Inl Singular" by blast
    then have "\<exists>i<Suc m. \<exists>st'. columns schs n 0 i st = Inr st' \<and> column_step (schs i) n i st' = Inl Singular"
      using less_Suc_eq by blast
    with l show ?thesis by blast
  next
    case (Inr st1)
    then have none: "\<not> (\<exists>i<m. \<exists>st'. columns schs n 0 i st = Inr st' \<and> column_step (schs i) n i st' = Inl Singular)"
      using Suc by simp
    have l: "columns schs n 0 (Suc m) st = column_step (schs m) n m st1"
      using Inr by (simp add: columns_snoc)
    show ?thesis
    proof
      assume "columns schs n 0 (Suc m) st = Inl Singular"
      then have "column_step (schs m) n m st1 = Inl Singular" using l by simp
      with Inr show "\<exists>i<Suc m. \<exists>st'. columns schs n 0 i st = Inr st' \<and> column_step (schs i) n i st' = Inl Singular"
        by blast
    next
      assume "\<exists>i<Suc m. \<exists>st'. columns schs n 0 i st = Inr st' \<and> column_step (schs i) n i st' = Inl Singular"
      then obtain i st' where i: "i < Suc m" "columns schs n 0 i st = Inr st'"
        "column_step (schs i) n i st' = Inl Singular" by blast
      from none i have "i = m" using less_Suc_eq by blast
      with i Inr have "column_step (schs m) n m st1 = Inl Singular" by simp
      then show "columns schs n 0 (Suc m) st = Inl Singular" using l by simp
    qed
  qed
qed

text \<open>
  Claim C4: for every column \<open>i\<close>, \<^verbatim>\<open>gauss\<close> reports the matrix singular and ends the run if and
  only if the largest \<open>|A[k][i]|\<close> over the rows \<open>k = i .. n-1\<close>, with \<open>A\<close> as it stands when column
  \<open>i\<close> is processed, is \<open>0\<close>. First conjunct: when the loop reaches column \<open>i\<close> with the arrays
  \<open>Ai\<close>, \<open>Bi\<close>, it aborts in that column exactly when the column maximum of \<open>Ai\<close> is \<open>0\<close>. Second
  conjunct: the run aborts exactly when some column is reached with column maximum \<open>0\<close>. The
  comparison of the element type is a linear order, as the maximum asks; every cut of the search
  range covers it.
\<close>

theorem singular_detection:
  fixes A :: "('a::{zero,plus,minus,uminus,times,inverse,abs,linorder}) matrix_t"
  assumes "\<forall>i<getSize A. sched_ok (Suc i) (getSize A) (schs i)"
  shows "(\<forall>i Ai Bi. i < getSize A \<and> columns schs (getSize A) 0 i (A, B) = Inr (Ai, Bi) \<longrightarrow>
            (columns schs (getSize A) 0 (Suc i) (A, B) = Inl Singular) = (column_max (getSize A) Ai i = 0)) \<and>
         (gauss schs A B X = Inl Singular) =
            (\<exists>i<getSize A. \<exists>Ai Bi. columns schs (getSize A) 0 i (A, B) = Inr (Ai, Bi) \<and>
               column_max (getSize A) Ai i = 0)"
proof -
  let ?n = "getSize A"
  have step: "(column_step (schs i) ?n i (Ai, Bi) = Inl Singular) = (column_max ?n Ai i = 0)"
    if "i < ?n" for i Ai Bi
    using column_step_singular[OF that, of "schs i" Ai Bi] assms that by simp
  have one: "(columns schs ?n 0 (Suc i) (A, B) = Inl Singular) = (column_max ?n Ai i = 0)"
    if "i < ?n" "columns schs ?n 0 i (A, B) = Inr (Ai, Bi)" for i Ai Bi
    using that step[OF that(1)] by (simp add: columns_snoc)
  have "(gauss schs A B X = Inl Singular) = (columns schs ?n 0 ?n (A, B) = Inl Singular)"
    by (auto simp: gauss_def split: sum.splits prod.splits abort.splits)
  also have "\<dots> = (\<exists>i<?n. \<exists>st'. columns schs ?n 0 i (A, B) = Inr st' \<and> column_step (schs i) ?n i st' = Inl Singular)"
    by (rule columns_abort)
  also have "\<dots> = (\<exists>i<?n. \<exists>Ai Bi. columns schs ?n 0 i (A, B) = Inr (Ai, Bi) \<and> column_max ?n Ai i = 0)"
  proof
    assume "\<exists>i<?n. \<exists>st'. columns schs ?n 0 i (A, B) = Inr st' \<and> column_step (schs i) ?n i st' = Inl Singular"
    then obtain i st' where i: "i < ?n" "columns schs ?n 0 i (A, B) = Inr st'"
      "column_step (schs i) ?n i st' = Inl Singular" by blast
    obtain Ai Bi where st': "st' = (Ai, Bi)" by (cases st')
    from i(3) step[OF i(1), of Ai Bi] have "column_max ?n Ai i = 0" by (simp add: st')
    with i(1,2) st' show "\<exists>i<?n. \<exists>Ai Bi. columns schs ?n 0 i (A, B) = Inr (Ai, Bi) \<and> column_max ?n Ai i = 0"
      by blast
  next
    assume "\<exists>i<?n. \<exists>Ai Bi. columns schs ?n 0 i (A, B) = Inr (Ai, Bi) \<and> column_max ?n Ai i = 0"
    then obtain i Ai Bi where i: "i < ?n" "columns schs ?n 0 i (A, B) = Inr (Ai, Bi)"
      "column_max ?n Ai i = 0" by blast
    from i(3) step[OF i(1), of Ai Bi] have "column_step (schs i) ?n i (Ai, Bi) = Inl Singular" by simp
    with i(1,2) show "\<exists>i<?n. \<exists>st'. columns schs ?n 0 i (A, B) = Inr st' \<and> column_step (schs i) ?n i st' = Inl Singular"
      by blast
  qed
  finally show ?thesis using one by blast
qed

theorem singular_detection_witness:
  "columns (\<lambda>i. Chunk) 2 0 0 ([[0, 1], [0, 1 :: real]], [1, 1]) = Inr ([[0, 1], [0, 1]], [1, 1]) \<and>
   column_max 2 [[0, 1], [0, 1 :: real]] 0 = 0 \<and>
   columns (\<lambda>i. Chunk) 2 0 (Suc 0) ([[0, 1], [0, 1 :: real]], [1, 1]) = Inl Singular \<and>
   gauss (\<lambda>i. Chunk) [[0, 1], [0, 1 :: real]] [1, 1] [0, 0] = Inl Singular"
proof -
  have n: "getSize [[0, 1], [0, 1 :: real]] = 2"
    by (simp add: getSize_def)
  have ok: "\<forall>i<getSize [[0, 1], [0, 1 :: real]]. sched_ok (Suc i) (getSize [[0, 1], [0, 1 :: real]]) Chunk"
    by simp
  have reach: "columns (\<lambda>i. Chunk) 2 0 0 ([[0, 1], [0, 1 :: real]], [1, 1]) = Inr ([[0, 1], [0, 1]], [1, 1])"
    by (simp add: columns_done)
  have zero: "column_max 2 [[0, 1], [0, 1 :: real]] 0 = 0"
    by (simp add: column_max_def upt_rec)
  note inst = singular_detection [of "[[0, 1], [0, 1 :: real]]" "\<lambda>i. Chunk" "[1, 1]" "[0, 0]", OF ok, unfolded n]
  from inst reach zero
  have a: "columns (\<lambda>i. Chunk) 2 0 (Suc 0) ([[0, 1], [0, 1 :: real]], [1, 1]) = Inl Singular"
    by (metis zero_less_numeral)
  from inst reach zero
  have b: "gauss (\<lambda>i. Chunk) [[0, 1], [0, 1 :: real]] [1, 1] [0, 0] = Inl Singular"
    by (metis zero_less_numeral)
  from reach zero a b show ?thesis by blast
qed

section \<open>Back substitution\<close>

lemma back_rows_length: "length (back_rows A x i k B) = length B"
  by (induction k arbitrary: B) simp_all



lemma back_subst_length:
  "length (fst (back_subst A n (B, X, ws))) = length B \<and>
   length (fst (snd (back_subst A n (B, X, ws)))) = length X"
  by (induction n arbitrary: B X ws) (simp_all add: Let_def back_rows_length)




section \<open>Initialisation\<close>

lemma draws_length: "length (fst (draws mt_rand k g)) = k"
proof (induction k arbitrary: g)
  case 0
  show ?case by simp
next
  case (Suc k)
  obtain v g' where m: "mt_rand g = (v, g')" by (cases "mt_rand g")
  show ?case using Suc[of g'] by (simp add: m case_prod_beta)
qed

lemma draw_rows_square:
  "length (fst (draw_rows mt_rand n k g)) = k \<and> list_all (\<lambda>r. length r = n) (fst (draw_rows mt_rand n k g))"
proof (induction k arbitrary: g)
  case 0
  show ?case by simp
next
  case (Suc k)
  obtain r g' where d: "draws mt_rand n g = (r, g')" by (cases "draws mt_rand n g")
  have "length r = n" using draws_length[of mt_rand n g] d by simp
  then show ?case using Suc[of g'] d by (simp add: case_prod_beta)
qed

lemma init_row_draws:
  "i < length A \<Longrightarrow> length (A ! i) = n \<Longrightarrow> j \<le> n \<Longrightarrow>
   init_row mt_rand n i j A g =
     (A[i := take j (A ! i) @ fst (draws mt_rand (n - j) g)], snd (draws mt_rand (n - j) g))"
proof (induction mt_rand n i j A g rule: init_row.induct)
  case (1 mt_rand n i j A g)
  show ?case
  proof (cases "j < n")
    case True
    obtain v g' where m: "mt_rand g = (v, g')" by (cases "mt_rand g")
    let ?A1 = "A[i := (A ! i)[j := v]]"
    have row: "?A1 ! i = (A ! i)[j := v]" using 1(2) by simp
    have pre: "i < length ?A1" "length (?A1 ! i) = n" "Suc j \<le> n"
      using 1(2,3) True by simp_all
    have IH: "init_row mt_rand n i (Suc j) ?A1 g' =
      (?A1[i := take (Suc j) (?A1 ! i) @ fst (draws mt_rand (n - Suc j) g')], snd (draws mt_rand (n - Suc j) g'))"
      using 1(1)[OF True m[symmetric] pre] .
    have tk: "take (Suc j) ((A ! i)[j := v]) = take j (A ! i) @ [v]"
      using True 1(3) by (simp add: take_Suc_conv_app_nth)
    have nj: "n - j = Suc (n - Suc j)" using True by simp
    have dr: "draws mt_rand (n - j) g =
        (v # fst (draws mt_rand (n - Suc j) g'), snd (draws mt_rand (n - Suc j) g'))"
      by (simp add: nj m case_prod_beta)
    have "init_row mt_rand n i j A g = init_row mt_rand n i (Suc j) ?A1 g'"
      using True m by (subst init_row.simps) simp
    then show ?thesis
      by (simp add: IH row tk dr)
  next
    case False
    with 1(4) have "j = n" by simp
    then show ?thesis
      using 1(2,3) by (subst init_row.simps) simp
  qed
qed

lemma init_rows_draws:
  "length A = n \<Longrightarrow> (\<forall>r. i \<le> r \<and> r < n \<longrightarrow> length (A ! r) = n) \<Longrightarrow> i \<le> n \<Longrightarrow>
   init_rows mt_rand n i A g =
     (take i A @ fst (draw_rows mt_rand n (n - i) g), snd (draw_rows mt_rand n (n - i) g))"
proof (induction mt_rand n i A g rule: init_rows.induct)
  case (1 mt_rand n i A g)
  show ?case
  proof (cases "i < n")
    case True
    let ?r = "fst (draws mt_rand n g)" and ?g' = "snd (draws mt_rand n g)"
    have row: "init_row mt_rand n i 0 A g = (A[i := ?r], ?g')"
      using init_row_draws[of i A n 0 mt_rand g] 1(2,3) True by simp
    let ?A1 = "A[i := ?r]"
    have pre: "length ?A1 = n" "\<forall>r. Suc i \<le> r \<and> r < n \<longrightarrow> length (?A1 ! r) = n" "Suc i \<le> n"
      using 1(2,3) True by auto
    have IH: "init_rows mt_rand n (Suc i) ?A1 ?g' =
       (take (Suc i) ?A1 @ fst (draw_rows mt_rand n (n - Suc i) ?g'), snd (draw_rows mt_rand n (n - Suc i) ?g'))"
      using 1(1)[OF True row[symmetric] pre] .
    have tk: "take (Suc i) ?A1 = take i A @ [?r]"
      using True 1(2) by (simp add: take_Suc_conv_app_nth)
    have ni: "n - i = Suc (n - Suc i)" using True by simp
    have dr: "draw_rows mt_rand n (n - i) g =
        (?r # fst (draw_rows mt_rand n (n - Suc i) ?g'), snd (draw_rows mt_rand n (n - Suc i) ?g'))"
      by (simp add: ni case_prod_beta)
    have "init_rows mt_rand n i A g = init_rows mt_rand n (Suc i) ?A1 ?g'"
      using True row by (subst init_rows.simps) simp
    then show ?thesis by (simp add: IH tk dr)
  next
    case False
    with 1(4) have "i = n" by simp
    then show ?thesis using 1(2) by (subst init_rows.simps) simp
  qed
qed

lemma init_vec_draws:
  "length B = n \<Longrightarrow> i \<le> n \<Longrightarrow>
   init_vec mt_rand n i B g = (take i B @ fst (draws mt_rand (n - i) g), snd (draws mt_rand (n - i) g))"
proof (induction mt_rand n i B g rule: init_vec.induct)
  case (1 mt_rand n i B g)
  show ?case
  proof (cases "i < n")
    case True
    obtain v g' where m: "mt_rand g = (v, g')" by (cases "mt_rand g")
    let ?B1 = "B[i := v]"
    have pre: "length ?B1 = n" "Suc i \<le> n" using 1(2) True by simp_all
    have IH: "init_vec mt_rand n (Suc i) ?B1 g' =
       (take (Suc i) ?B1 @ fst (draws mt_rand (n - Suc i) g'), snd (draws mt_rand (n - Suc i) g'))"
      using 1(1)[OF True m[symmetric] pre] .
    have tk: "take (Suc i) ?B1 = take i B @ [v]"
      using True 1(2) by (simp add: take_Suc_conv_app_nth)
    have ni: "n - i = Suc (n - Suc i)" using True by simp
    have dr: "draws mt_rand (n - i) g =
        (v # fst (draws mt_rand (n - Suc i) g'), snd (draws mt_rand (n - Suc i) g'))"
      by (simp add: ni m case_prod_beta)
    have "init_vec mt_rand n i B g = init_vec mt_rand n (Suc i) ?B1 g'"
      using True m by (subst init_vec.simps) simp
    then show ?thesis by (simp add: IH tk dr)
  next
    case False
    with 1(3) have "i = n" by simp
    then show ?thesis using 1(2) by (subst init_vec.simps) simp
  qed
qed

lemma initializeFromSeed_draws:
  assumes "square n A" and "length B = n"
  shows "initializeFromSeed mt19937 uniform_real sd A B r =
    (fst (draw_rows (uniform_real (- r) r) n n (mt19937 sd)),
     fst (draws (uniform_real (- r) r) n (snd (draw_rows (uniform_real (- r) r) n n (mt19937 sd)))))"
proof -
  have rows: "\<forall>k. 0 \<le> k \<and> k < n \<longrightarrow> length (A ! k) = n" and len: "length A = n"
    using assms(1) by (auto simp: square_def list_all_length)
  show ?thesis
    using init_rows_draws[OF len rows, of "uniform_real (- r) r" "mt19937 sd"]
      init_vec_draws[OF assms(2), of 0 "uniform_real (- r) r"]
    by (simp add: initializeFromSeed_def Let_def getSize_def len assms(2) case_prod_beta)
qed

lemma initializeFromSeed_shape:
  assumes "square n A" and "length B = n" and "initializeFromSeed mt19937 uniform_real sd A B r = (A1, B1)"
  shows "square n A1 \<and> length B1 = n"
  using assms(3) draw_rows_square[of "uniform_real (- r) r" n n "mt19937 sd"]
  by (auto simp: initializeFromSeed_draws[OF assms(1,2)] square_def draws_length)

lemma gauss_shape:
  fixes A :: "('a::{zero,plus,minus,uminus,times,inverse,abs,ord}) matrix_t"
  assumes "square n A" and "length B = n" and "gauss schs A B X = Inr (A', B', X')"
  shows "square n A' \<and> length B' = n \<and> length X' = length X"
proof -
  have n: "getSize A = n" using assms(1) by (simp add: square_def getSize_def)
  from assms(3) obtain B1 ws where c: "columns schs n 0 n (A, B) = Inr (A', B1)"
    and b: "back_subst A' n (B1, X, []) = (B', X', ws)"
    by (auto simp: gauss_def n split: sum.splits prod.splits)
  from columns_eliminated[OF c] assms(1,2) have "square n A'" "length B1 = n" by simp_all
  moreover from back_subst_length[of A' n B1 X "[]"] b have "length B' = length B1" "length X' = length X"
    by simp_all
  ultimately show ?thesis by simp
qed

text \<open>
  Claim C3: \<^verbatim>\<open>initializeFromSeed\<close> is deterministic. For a seed, a dimension \<open>n\<close> and a range,
  two calls give the same \<open>A\<close> and \<open>B\<close> whatever the arrays held before (first conjunct);
  so initialising again with the same seed after \<^verbatim>\<open>gauss\<close> has run on the arrays gives back the
  values they had before the elimination (second conjunct). The engine and the distribution are
  any functions of their arguments.
\<close>

theorem initialize_deterministic:
  fixes A :: "('a::{zero,plus,minus,uminus,times,inverse,abs,ord}) matrix_t"
  assumes "square n A" and "length B = n" and "square n A2" and "length B2 = n"
  shows "initializeFromSeed mt19937 uniform_real sd A B r =
           initializeFromSeed mt19937 uniform_real sd A2 B2 r \<and>
         (initializeFromSeed mt19937 uniform_real sd A B r = (A1, B1) \<and>
          gauss schs A1 B1 X = Inr (A', B', X') \<longrightarrow>
            initializeFromSeed mt19937 uniform_real sd A' B' r = (A1, B1))"
proof -
  have same: "initializeFromSeed mt19937 uniform_real sd A B r =
           initializeFromSeed mt19937 uniform_real sd A2 B2 r"
    by (simp add: initializeFromSeed_draws[OF assms(1,2)] initializeFromSeed_draws[OF assms(3,4)])
  have "initializeFromSeed mt19937 uniform_real sd A' B' r = (A1, B1)"
    if i: "initializeFromSeed mt19937 uniform_real sd A B r = (A1, B1)"
      and g: "gauss schs A1 B1 X = Inr (A', B', X')"
  proof -
    from initializeFromSeed_shape[OF assms(1,2) i] have s1: "square n A1" "length B1 = n" by simp_all
    from gauss_shape[OF s1 g] have s2: "square n A'" "length B' = n" by simp_all
    show ?thesis
      using i by (simp add: initializeFromSeed_draws[OF assms(1,2)] initializeFromSeed_draws[OF s2])
  qed
  with same show ?thesis by blast
qed

theorem initialize_deterministic_witness:
  "initializeFromSeed (\<lambda>s. s) (\<lambda>lo hi g. (of_int g, g + 1)) 1 [[0, 0], [0, 0]] [0, 0] 65536 =
     ([[1, 2], [3, 4 :: real]], [5, 6]) \<and>
   initializeFromSeed (\<lambda>s. s) (\<lambda>lo hi g. (of_int g, g + 1)) 1 [[7, 7], [7, 7]] [9, 9] 65536 =
     ([[1, 2], [3, 4 :: real]], [5, 6]) \<and>
   gauss (\<lambda>i. Chunk) [[1, 2], [3, 4 :: real]] [5, 6] [0, 0] = Inr ([[1, 2], [0, - 2]], [- 4, - 9], [- 4, 9 / 2]) \<and>
   initializeFromSeed (\<lambda>s. s) (\<lambda>lo hi g. (of_int g, g + 1)) 1 [[1, 2], [0, - 2]] [- 4, - 9] 65536 =
     ([[1, 2], [3, 4 :: real]], [5, 6])"
proof -
  have sq: "square 2 [[0, 0], [0, 0 :: real]]" "length [0, 0 :: real] = 2"
    "square 2 [[7, 7], [7, 7 :: real]]" "length [9, 9 :: real] = 2"
    by (simp_all add: square_def)
  have first: "initializeFromSeed (\<lambda>s. s) (\<lambda>lo hi g. (of_int g, g + 1)) 1 [[0, 0], [0, 0]] [0, 0] 65536 =
     ([[1, 2], [3, 4 :: real]], [5, 6])"
    by (simp add: initializeFromSeed_def getSize_def init_rows.simps init_row.simps init_vec.simps)
  have run: "gauss (\<lambda>i. Chunk) [[1, 2], [3, 4 :: real]] [5, 6] [0, 0] =
      Inr ([[1, 2], [0, - 2]], [- 4, - 9], [- 4, 9 / 2])"
    by (simp add: gauss_def getSize_def columns.simps column_step_def pivot_search_def pivot_body.simps
      swap_def elim_rows.simps elim_row_def elim_cols.simps Let_def numeral_2_eq_2)
  note inst = initialize_deterministic [OF sq, of "\<lambda>s. s" "\<lambda>lo hi g. (of_int g, g + 1)" 1 65536
      "[[1, 2], [3, 4]]" "[5, 6]" "\<lambda>i. Chunk" "[0, 0]" "[[1, 2], [0, - 2]]" "[- 4, - 9]" "[- 4, 9 / 2]"]
  from inst first have second:
    "initializeFromSeed (\<lambda>s. s) (\<lambda>lo hi g. (of_int g, g + 1)) 1 [[7, 7], [7, 7]] [9, 9] 65536 =
     ([[1, 2], [3, 4 :: real]], [5, 6])"
    by simp
  from inst first run have third:
    "initializeFromSeed (\<lambda>s. s) (\<lambda>lo hi g. (of_int g, g + 1)) 1 [[1, 2], [0, - 2]] [- 4, - 9] 65536 =
     ([[1, 2], [3, 4 :: real]], [5, 6])"
    by blast
  from first second run third show ?thesis by blast
qed

section \<open>Verification\<close>








section \<open>The runs of main\<close>




























section \<open>The parallel flag\<close>




end
